theory Spec2Isabelle
  imports Main "HOL-Library.Sublist"
begin

section \<open>The regular expressions of \<^verbatim>\<open>transform.py\<close>\<close>

text \<open>
  The script rewrites one PHP test file with a single call of \<^verbatim>\<open>re.sub\<close>. The text is a
  \<^typ>\<open>string\<close>; a character stands for a code point below 256.

  The pattern of the script is a sequence of items: literal text, one character of a class,
  a class under \<^verbatim>\<open>*\<close>, \<^verbatim>\<open>+\<close>, \<^verbatim>\<open>+?\<close> or \<^verbatim>\<open>?\<close>, and a capturing group around
  one of these. Every quantifier of the pattern stands on a single character class, so the
  datatype has no more than that.
\<close>

datatype cls = Space | OneOf string | NoneOf string | Dot

text \<open>
  \<^verbatim>\<open>\s\<close> on a \<^verbatim>\<open>str\<close> pattern is \<^verbatim>\<open>str.isspace\<close>: below 256 these are the code points
  9 to 13, 28 to 32, 133 and 160.
\<close>

definition is_space :: "char \<Rightarrow> bool" where
  "is_space c = (c \<in> set [CHR 0x09, CHR 0x0A, CHR 0x0B, CHR 0x0C, CHR 0x0D, CHR 0x1C,
     CHR 0x1D, CHR 0x1E, CHR 0x1F, CHR 0x20, CHR 0x85, CHR 0xA0])"

text \<open>With \<^verbatim>\<open>re.DOTALL\<close> the dot takes every character, the newline too.\<close>

fun cls_has :: "cls \<Rightarrow> char \<Rightarrow> bool" where
  "cls_has Space c = is_space c"
| "cls_has (OneOf cs) c = (c \<in> set cs)"
| "cls_has (NoneOf cs) c = (c \<notin> set cs)"
| "cls_has Dot c = True"

datatype item =
    Lit string
  | One cls
  | Star cls
  | Plus cls
  | LazyPlus cls
  | Opt cls
  | Group item

text \<open>The number of characters at the start of the text that lie in the class.\<close>

definition run :: "cls \<Rightarrow> string \<Rightarrow> nat" where
  "run c s = length (takeWhile (cls_has c) s)"

text \<open>
  The widths an item may take at the start of the text, in the order in which the
  backtracking engine tries them: a greedy repeat from the longest run down to its minimum,
  the lazy repeat from its minimum up.
\<close>

fun widths :: "item \<Rightarrow> string \<Rightarrow> nat list" where
  "widths (Lit l) s = (if prefix l s then [length l] else [])"
| "widths (One c) s = (if 1 \<le> run c s then [1] else [])"
| "widths (Star c) s = rev [0..<Suc (run c s)]"
| "widths (Plus c) s = rev [1..<Suc (run c s)]"
| "widths (LazyPlus c) s = [1..<Suc (run c s)]"
| "widths (Opt c) s = rev [0..<Suc (min 1 (run c s))]"
| "widths (Group i) s = widths i s"

fun captured :: "item \<Rightarrow> string \<Rightarrow> string list" where
  "captured (Group i) t = [t]"
| "captured i t = []"

fun first_some :: "('a \<Rightarrow> 'b option) \<Rightarrow> 'a list \<Rightarrow> 'b option" where
  "first_some f [] = None"
| "first_some f (k # ks) = (case f k of Some r \<Rightarrow> Some r | None \<Rightarrow> first_some f ks)"

text \<open>
  Matching at the start of the text: the first way, in the engine's order, in which all
  items match one after the other. The result is the list of groups and the text after the
  match.
\<close>

fun re_match :: "item list \<Rightarrow> string \<Rightarrow> (string list \<times> string) option" where
  "re_match [] s = Some ([], s)"
| "re_match (i # p) s =
     first_some (\<lambda>k. case re_match p (drop k s) of
                        None \<Rightarrow> None
                      | Some (gs, rest) \<Rightarrow> Some (captured i (take k s) @ gs, rest))
       (widths i s)"

text \<open>
  Searching: the leftmost position at which the pattern matches. The result is the text
  before the match, the groups and the text after the match.
\<close>

fun re_search :: "item list \<Rightarrow> string \<Rightarrow> (string \<times> string list \<times> string) option" where
  "re_search p [] =
     (case re_match p [] of None \<Rightarrow> None | Some (gs, rest) \<Rightarrow> Some ([], gs, rest))"
| "re_search p (c # cs) =
     (case re_match p (c # cs) of
        Some (gs, rest) \<Rightarrow> Some ([], gs, rest)
      | None \<Rightarrow> (case re_search p cs of
                   None \<Rightarrow> None
                 | Some (pre, gs, rest) \<Rightarrow> Some (c # pre, gs, rest)))"

lemma re_match_length: "re_match p s = Some (gs, rest) \<Longrightarrow> length rest \<le> length s"
proof (induction p arbitrary: s gs rest)
  case Nil
  then show ?case by simp
next
  case (Cons i p)
  have "\<And>ks. first_some (\<lambda>k. case re_match p (drop k s) of
                        None \<Rightarrow> None
                      | Some (gs, rest) \<Rightarrow> Some (captured i (take k s) @ gs, rest)) ks
             = Some (gs, rest) \<Longrightarrow> length rest \<le> length s"
  proof -
    fix ks
    show "first_some (\<lambda>k. case re_match p (drop k s) of
                        None \<Rightarrow> None
                      | Some (gs, rest) \<Rightarrow> Some (captured i (take k s) @ gs, rest)) ks
             = Some (gs, rest) \<Longrightarrow> length rest \<le> length s"
    proof (induction ks)
      case Nil
      then show ?case by simp
    next
      case (Cons k ks)
      show ?case
      proof (cases "re_match p (drop k s)")
        case None
        with Cons show ?thesis by simp
      next
        case (Some r)
        obtain gs' rest' where r: "r = (gs', rest')" by (cases r)
        from Cons.prems Some r have "rest' = rest" by simp
        with Some r Cons.IH Cons.prems \<open>\<And>s gs rest. re_match p s = Some (gs, rest) \<Longrightarrow> length rest \<le> length s\<close>
        have "length rest \<le> length (drop k s)" by blast
        then show ?thesis by simp
      qed
    qed
  qed
  with Cons.prems show ?case by simp
qed

lemma re_search_length: "re_search p s = Some (pre, gs, rest) \<Longrightarrow> length rest \<le> length s"
proof (induction s arbitrary: pre)
  case Nil
  then show ?case by (auto split: option.splits dest: re_match_length)
next
  case (Cons c cs)
  then show ?case
    by (fastforce split: option.splits dest: re_match_length)
qed

text \<open>
  \<^verbatim>\<open>re.sub(pattern, repl, content)\<close> with a callable \<^verbatim>\<open>repl\<close>: search from the current
  position, copy the text before the match, emit what \<^verbatim>\<open>repl\<close> makes of the match, go on
  behind the match. A match of width zero is followed by one copied character; the
  pattern of this script cannot match the empty text, so that branch is never taken here.
\<close>

function re_sub :: "item list \<Rightarrow> (string list \<Rightarrow> string) \<Rightarrow> string \<Rightarrow> string" where
  "re_sub p repl s =
     (case re_search p s of
        None \<Rightarrow> s
      | Some (pre, gs, rest) \<Rightarrow>
          pre @ repl gs @
            (if length rest < length s then re_sub p repl rest
             else (case rest of [] \<Rightarrow> [] | c # cs \<Rightarrow> c # re_sub p repl cs)))"
  by pat_completeness auto
termination
proof (relation "measure (\<lambda>(p, repl, s). length s)")
  show "wf (measure (\<lambda>(p, repl, s). length s))" by simp
next
  fix p :: "item list" and repl :: "string list \<Rightarrow> string" and s x2 x y xa ya
  assume "re_search p s = Some x2" "(x, y) = x2" "(xa, ya) = y" "length ya < length s"
  then show "((p, repl, ya), p, repl, s) \<in> measure (\<lambda>(p, repl, s). length s)" by simp
next
  fix p :: "item list" and repl :: "string list \<Rightarrow> string" and s x2 x y xa ya x21 x22
  assume "re_search p s = Some x2" "(x, y) = x2" "(xa, ya) = y" "\<not> length ya < length s"
    "ya = x21 # x22"
  then have "length ya \<le> length s" using re_search_length [of p s x xa ya] by simp
  with \<open>ya = x21 # x22\<close>
  show "((p, repl, x22), p, repl, s) \<in> measure (\<lambda>(p, repl, s). length s)" by simp
qed

declare re_sub.simps [simp del]

section \<open>The script\<close>

text \<open>
  The pattern, item by item as the source writes it:
  \<^verbatim>\<open>(\s+)\$requestObject = RequestObjectData::from\(\[\s*['"]jsonrpc['"]\s*=>\s*['"]2\.0['"]\s*,\<close>
  \<^verbatim>\<open>\s*['"]id['"]\s*=>\s*([^,]+),\s*['"]method['"]\s*=>\s*([^,]+),\<close>
  \<^verbatim>\<open>\s*['"]params['"]\s*=>\s*(.+?),?\s*\]\);\<close>
  The flag \<^verbatim>\<open>re.MULTILINE\<close> changes \<^verbatim>\<open>^\<close> and \<^verbatim>\<open>$\<close> only, and the pattern has neither.
\<close>

definition quote :: cls where
  "quote = OneOf [CHR 0x27, CHR 0x22]"

definition pattern :: "item list" where
  "pattern =
    [Group (Plus Space),
     Lit ''$requestObject = RequestObjectData::from(['',
     Star Space, One quote, Lit ''jsonrpc'', One quote,
     Star Space, Lit ''=>'', Star Space,
     One quote, Lit ''2.0'', One quote,
     Star Space, Lit '','', Star Space,
     One quote, Lit ''id'', One quote,
     Star Space, Lit ''=>'', Star Space,
     Group (Plus (NoneOf '','')),
     Lit '','', Star Space,
     One quote, Lit ''method'', One quote,
     Star Space, Lit ''=>'', Star Space,
     Group (Plus (NoneOf '','')),
     Lit '','', Star Space,
     One quote, Lit ''params'', One quote,
     Star Space, Lit ''=>'', Star Space,
     Group (LazyPlus Dot),
     Opt (OneOf '',''), Star Space,
     Lit '']);'']"

text \<open>
  \<^verbatim>\<open>match.group(n)\<close>: the groups of a match count from 1. The pattern has four groups and
  every match of it carries four (lemma \<open>pattern_groups\<close> below), so the index of
  \<^verbatim>\<open>transform_request\<close> is always in range.
\<close>

definition group :: "string list \<Rightarrow> nat \<Rightarrow> string" where
  "group m n = m ! (n - 1)"

definition nl :: string where
  "nl = [CHR 0x0A]"

definition transform_request :: "string list \<Rightarrow> string" where
  "transform_request m =
    (let indent = group m 1;
         id_val = group m 2;
         method = group m 3;
         params = group m 4;
         result = indent @ ''$requestObject = RequestObjectData::from(['' @ nl;
         result = result @ indent @ ''    'protocol' => VendProtocol::VERSION,'' @ nl;
         result = result @ indent @ ''    'id' => '' @ id_val @ '','' @ nl;
         result = result @ indent @ ''    'call' => CallData::from(['' @ nl;
         result = result @ indent @ ''        'function' => '' @ method @ '','' @ nl;
         result = result @ indent @ ''        'arguments' => '' @ params @ '','' @ nl;
         result = result @ indent @ ''    ]),'' @ nl;
         result = result @ indent @ '']);''
     in result)"

definition transform :: "string \<Rightarrow> string" where
  "transform content = re_sub pattern transform_request content"

text \<open>
  The file system as the script sees it: the one file behind the hardcoded path, and
  standard output. \<^verbatim>\<open>open(path, 'r')\<close> raises \<^verbatim>\<open>FileNotFoundError\<close> for a missing
  file and \<^verbatim>\<open>PermissionError\<close> for one that may not be read, \<^verbatim>\<open>f.read()\<close> raises
  \<^verbatim>\<open>UnicodeDecodeError\<close> for bytes that are no text, \<^verbatim>\<open>open(path, 'w')\<close> raises
  \<^verbatim>\<open>PermissionError\<close> for a file that may not be written. The script has no
  \<^verbatim>\<open>try\<close>: an error ends the run where it is raised. \<open>file_writes\<close> counts the
  writes to the file.
\<close>

datatype error = FileNotFoundError | PermissionError | UnicodeDecodeError

record world =
  file_exists :: bool
  file_readable :: bool
  file_decodes :: bool
  file_writable :: bool
  file_text :: string
  file_writes :: nat
  stdout :: "string list"

text \<open>
  The file is opened in text mode without \<^verbatim>\<open>newline=\<close>: reading turns \<^verbatim>\<open>CR LF\<close> and
  a single \<^verbatim>\<open>CR\<close> into \<^verbatim>\<open>LF\<close>. Writing on the system of the hardcoded path
  (\<^verbatim>\<open>/Users/...\<close>, where the line separator is \<^verbatim>\<open>LF\<close>) stores the text as it is.
  \<open>file_text\<close> is the content of the file as stored.
\<close>

fun newlines_from :: "bool \<Rightarrow> string \<Rightarrow> string" where
  "newlines_from after_cr [] = []"
| "newlines_from after_cr (c # cs) =
     (if c = CHR 0x0D then CHR 0x0A # newlines_from True cs
      else if c = CHR 0x0A \<and> after_cr then newlines_from False cs
      else c # newlines_from False cs)"

definition universal_newlines :: "string \<Rightarrow> string" where
  "universal_newlines s = newlines_from False s"

definition open_read :: "world \<Rightarrow> error + string" where
  "open_read w =
     (if \<not> file_exists w then Inl FileNotFoundError
      else if \<not> file_readable w then Inl PermissionError
      else if \<not> file_decodes w then Inl UnicodeDecodeError
      else Inr (universal_newlines (file_text w)))"

definition open_write :: "string \<Rightarrow> world \<Rightarrow> error + world" where
  "open_write text w =
     (if \<not> file_writable w then Inl PermissionError
      else Inr (w\<lparr>file_text := text, file_writes := Suc (file_writes w)\<rparr>))"

definition print_line :: "string \<Rightarrow> world \<Rightarrow> world" where
  "print_line msg w = w\<lparr>stdout := stdout w @ [msg]\<rparr>"

definition script :: "world \<Rightarrow> (error + unit) \<times> world" where
  "script w =
     (case open_read w of
        Inl e \<Rightarrow> (Inl e, w)
      | Inr content \<Rightarrow>
          (case open_write (transform content) w of
             Inl e \<Rightarrow> (Inl e, w)
           | Inr w' \<Rightarrow> (Inr (), print_line ''Transformation complete!'' w')))"

text \<open>A file that the script can read, decode and write.\<close>

definition usable :: "world \<Rightarrow> bool" where
  "usable w = (file_exists w \<and> file_readable w \<and> file_decodes w \<and> file_writable w)"

section \<open>Call sites\<close>

text \<open>
  What an item accepts, apart from the order in which the engine tries its widths.
\<close>

fun accepts :: "item \<Rightarrow> string \<Rightarrow> bool" where
  "accepts (Lit l) t = (t = l)"
| "accepts (One c) t = (length t = 1 \<and> list_all (cls_has c) t)"
| "accepts (Star c) t = list_all (cls_has c) t"
| "accepts (Plus c) t = (t \<noteq> [] \<and> list_all (cls_has c) t)"
| "accepts (LazyPlus c) t = (t \<noteq> [] \<and> list_all (cls_has c) t)"
| "accepts (Opt c) t = (length t \<le> 1 \<and> list_all (cls_has c) t)"
| "accepts (Group i) t = accepts i t"

record call_site =
  site_indent :: string
  site_gaps :: "string list"
  site_quotes :: "char list"
  site_id :: string
  site_method :: string
  site_params :: string
  site_comma :: bool

definition gap :: "call_site \<Rightarrow> nat \<Rightarrow> string" where
  "gap c n = site_gaps c ! n"

definition qt :: "call_site \<Rightarrow> nat \<Rightarrow> char" where
  "qt c n = site_quotes c ! n"

definition render_onto :: "call_site \<Rightarrow> string \<Rightarrow> string" where
  "render_onto c rest =
     site_indent c @ ''$requestObject = RequestObjectData::from(['' @
     gap c 0 @ qt c 0 # ''jsonrpc'' @ qt c 1 # gap c 1 @ ''=>'' @ gap c 2 @
     qt c 2 # ''2.0'' @ qt c 3 # gap c 3 @ '','' @ gap c 4 @
     qt c 4 # ''id'' @ qt c 5 # gap c 5 @ ''=>'' @ gap c 6 @
     site_id c @ '','' @ gap c 7 @
     qt c 6 # ''method'' @ qt c 7 # gap c 8 @ ''=>'' @ gap c 9 @
     site_method c @ '','' @ gap c 10 @
     qt c 8 # ''params'' @ qt c 9 # gap c 11 @ ''=>'' @ gap c 12 @
     site_params c @ (if site_comma c then '','' else []) @ gap c 13 @ '']);'' @ rest"

definition render :: "call_site \<Rightarrow> string" where
  "render c = render_onto c []"

definition is_quote :: "char \<Rightarrow> bool" where
  "is_quote q = (q = CHR 0x27 \<or> q = CHR 0x22)"

definition shaped :: "call_site \<Rightarrow> bool" where
  "shaped c =
    (site_indent c \<noteq> [] \<and> list_all is_space (site_indent c) \<and>
     length (site_gaps c) = 14 \<and> list_all (list_all is_space) (site_gaps c) \<and>
     length (site_quotes c) = 10 \<and> list_all is_quote (site_quotes c) \<and>
     site_id c \<noteq> [] \<and> CHR '','' \<notin> set (site_id c) \<and>
     site_method c \<noteq> [] \<and> CHR '','' \<notin> set (site_method c) \<and>
     site_params c \<noteq> [])"

text \<open>
  A call site is well formed when, beyond its shape, none of the three expressions starts
  with white space, and the params expression holds no semicolon and ends neither in white
  space nor in a comma: then the call is one statement and \<^verbatim>\<open>]);\<close> closes it.
\<close>

definition well_formed :: "call_site \<Rightarrow> bool" where
  "well_formed c =
    (shaped c \<and>
     \<not> is_space (hd (site_id c)) \<and>
     \<not> is_space (hd (site_method c)) \<and>
     \<not> is_space (hd (site_params c)) \<and>
     CHR '';'' \<notin> set (site_params c) \<and>
     \<not> is_space (last (site_params c)) \<and>
     last (site_params c) \<noteq> CHR '','')"

text \<open>The end of the pattern, behind the last group: \<^verbatim>\<open>,?\s*\]\);\<close>\<close>

definition closing :: "item list" where
  "closing = [Opt (OneOf '',''), Star Space, Lit '']);'']"

section \<open>Facts about the matcher\<close>

lemma first_some_SomeD: "first_some f ks = Some r \<Longrightarrow> \<exists>k\<in>set ks. f k = Some r"
  by (induction ks) (auto split: option.splits)

lemma first_some_skip:
  "\<forall>k\<in>set before. f k = None \<Longrightarrow> first_some f (before @ ks) = first_some f ks"
  by (induction before) auto

lemma first_some_None: "\<forall>k\<in>set ks. f k = None \<Longrightarrow> first_some f ks = None"
  by (induction ks) auto

lemma run_le: "run c s \<le> length s"
  by (simp add: run_def length_takeWhile_le)

lemma run_Nil [simp]: "run c [] = 0"
  by (simp add: run_def)

lemma run_Cons [simp]: "run c (x # s) = (if cls_has c x then Suc (run c s) else 0)"
  by (simp add: run_def)

lemma run_append: "list_all (cls_has c) w \<Longrightarrow> run c (w @ s) = length w + run c s"
  by (induction w) auto

lemma run_take: "k \<le> run c s \<Longrightarrow> list_all (cls_has c) (take k s)"
proof (induction s arbitrary: k)
  case Nil
  then show ?case by simp
next
  case (Cons x s)
  then show ?case by (cases k) (auto split: if_splits)
qed

lemma widths_sound: "k \<in> set (widths i s) \<Longrightarrow> k \<le> length s \<and> accepts i (take k s)"
proof (induction i)
  case (Lit l)
  then show ?case by (auto simp: prefix_def split: if_splits)
next
  case (One c)
  then have "1 \<le> run c s" "k = 1" by (auto split: if_splits)
  then show ?case using run_le [of c s] run_take [of 1 c s] by auto
next
  case (Star c)
  then have "k \<le> run c s" by auto
  then show ?case using run_le [of c s] run_take [of k c s] by auto
next
  case (Plus c)
  then have "k \<le> run c s" "1 \<le> k" by auto
  then show ?case using run_le [of c s] run_take [of k c s] by auto
next
  case (LazyPlus c)
  then have "k \<le> run c s" "1 \<le> k" by auto
  then show ?case using run_le [of c s] run_take [of k c s] by auto
next
  case (Opt c)
  then have "k \<le> run c s" "k \<le> 1" by auto
  then show ?case using run_le [of c s] run_take [of k c s] by auto
next
  case (Group i)
  then show ?case by simp
qed

lemma re_match_ConsD:
  assumes "re_match (i # p) s = Some (gs, rest)"
  shows "\<exists>t s' gs'. s = t @ s' \<and> accepts i t \<and> re_match p s' = Some (gs', rest)
           \<and> gs = captured i t @ gs'"
proof -
  from assms obtain k where k: "k \<in> set (widths i s)"
    and m: "(case re_match p (drop k s) of None \<Rightarrow> None
             | Some (gs, rest) \<Rightarrow> Some (captured i (take k s) @ gs, rest)) = Some (gs, rest)"
    by (auto dest!: first_some_SomeD)
  from m obtain gs' where "re_match p (drop k s) = Some (gs', rest)"
    "gs = captured i (take k s) @ gs'"
    by (auto split: option.splits)
  moreover have "s = take k s @ drop k s" by simp
  moreover have "accepts i (take k s)" using widths_sound [OF k] by simp
  ultimately show ?thesis by blast
qed

lemma inv_lit:
  "re_match (Lit l # p) s = Some (gs, rest) \<Longrightarrow> \<exists>s'. s = l @ s' \<and> re_match p s' = Some (gs, rest)"
  by (drule re_match_ConsD) auto

lemma inv_one:
  "re_match (One c # p) s = Some (gs, rest) \<Longrightarrow>
     \<exists>x s'. s = x # s' \<and> cls_has c x \<and> re_match p s' = Some (gs, rest)"
  by (drule re_match_ConsD) (auto simp: length_Suc_conv)

lemma inv_star:
  "re_match (Star c # p) s = Some (gs, rest) \<Longrightarrow>
     \<exists>w s'. s = w @ s' \<and> list_all (cls_has c) w \<and> re_match p s' = Some (gs, rest)"
  by (drule re_match_ConsD) auto

lemma inv_opt:
  "re_match (Opt c # p) s = Some (gs, rest) \<Longrightarrow>
     \<exists>w s'. s = w @ s' \<and> length w \<le> 1 \<and> list_all (cls_has c) w \<and> re_match p s' = Some (gs, rest)"
  by (drule re_match_ConsD) auto

lemma inv_group:
  "re_match (Group i # p) s = Some (gs, rest) \<Longrightarrow>
     \<exists>t s' gs'. s = t @ s' \<and> accepts i t \<and> gs = t # gs' \<and> re_match p s' = Some (gs', rest)"
  by (drule re_match_ConsD) auto

lemma widths_hd_match:
  assumes "widths i s = k # ks" "re_match p (drop k s) = Some (gs, rest)"
  shows "re_match (i # p) s = Some (captured i (take k s) @ gs, rest)"
  using assms by simp

lemma go_lit: "re_match p s = Some r \<Longrightarrow> re_match (Lit l # p) (l @ s) = Some r"
  by (cases r) simp

lemma go_one: "cls_has c x \<Longrightarrow> re_match p s = Some r \<Longrightarrow> re_match (One c # p) (x # s) = Some r"
  by (cases r) simp

lemma rev_upt_Suc: "m \<le> n \<Longrightarrow> rev [m..<Suc n] = n # rev [m..<n]"
  by simp

lemma go_star:
  assumes "list_all (cls_has c) w" "run c s = 0" "re_match p s = Some r"
  shows "re_match (Star c # p) (w @ s) = Some r"
proof -
  have "run c (w @ s) = length w" using assms by (simp add: run_append)
  then have "widths (Star c) (w @ s) = length w # rev [0..<length w]" by simp
  then show ?thesis using assms(3) by (cases r) simp
qed

lemma go_group_plus:
  assumes "t \<noteq> []" "list_all (cls_has c) t" "run c s = 0" "re_match p s = Some (gs, rest)"
  shows "re_match (Group (Plus c) # p) (t @ s) = Some (t # gs, rest)"
proof -
  have "run c (t @ s) = length t" using assms by (simp add: run_append)
  moreover have "1 \<le> length t" using assms(1) by (cases t) auto
  ultimately have "widths (Group (Plus c)) (t @ s) = length t # rev [1..<length t]" by simp
  then show ?thesis using assms(4) by simp
qed

lemma go_opt_take:
  assumes "cls_has c x" "re_match p s = Some r"
  shows "re_match (Opt c # p) (x # s) = Some r"
proof -
  have "widths (Opt c) (x # s) = [1, 0]" using assms(1) by (simp add: min_def upt_rec)
  then show ?thesis using assms(2) by (cases r) simp
qed

lemma go_opt_skip:
  assumes "run c s = 0" "re_match p s = Some r"
  shows "re_match (Opt c # p) s = Some r"
proof -
  have "widths (Opt c) s = [0]" using assms(1) by simp
  then show ?thesis using assms(2) by (cases r) simp
qed

lemma go_group_lazy:
  assumes "t \<noteq> []" "\<forall>k. 0 < k \<and> k < length t \<longrightarrow> re_match p (drop k t @ s) = None"
    "re_match p s = Some (gs, rest)"
  shows "re_match (Group (LazyPlus Dot) # p) (t @ s) = Some (t # gs, rest)"
proof -
  let ?f = "\<lambda>k. case re_match p (drop k (t @ s)) of None \<Rightarrow> None
                  | Some (gs, rest) \<Rightarrow> Some (captured (Group (LazyPlus Dot)) (take k (t @ s)) @ gs, rest)"
  have "\<And>u. run Dot u = length u"
  proof -
    fix u show "run Dot u = length u" by (induction u) auto
  qed
  then have r: "run Dot (t @ s) = length t + length s" by simp
  have len: "1 \<le> length t" using assms(1) by (cases t) auto
  have "[1..<Suc (length t + length s)] = [1..<length t] @ length t # [Suc (length t)..<Suc (length t + length s)]"
  proof -
    have "[1..<length t + Suc (length s)] = [1..<length t] @ [length t..<length t + Suc (length s)]"
      using len by (rule upt_add_eq_append)
    moreover have "[length t..<length t + Suc (length s)]
        = length t # [Suc (length t)..<length t + Suc (length s)]"
      by (rule upt_conv_Cons) simp
    ultimately show ?thesis by simp
  qed
  then have w: "widths (Group (LazyPlus Dot)) (t @ s)
      = [1..<length t] @ length t # [Suc (length t)..<Suc (length t + length s)]"
    using r by simp
  have "\<forall>k\<in>set [1..<length t]. ?f k = None" using assms(2) by auto
  then have "first_some ?f (widths (Group (LazyPlus Dot)) (t @ s))
      = first_some ?f (length t # [Suc (length t)..<Suc (length t + length s)])"
    unfolding w by (rule first_some_skip)
  also have "\<dots> = Some (t # gs, rest)" using assms(3) by simp
  finally show ?thesis by simp
qed

lemma opt_comma:
  "length t \<le> 1 \<Longrightarrow> list_all (cls_has (OneOf '','')) t \<Longrightarrow>
     (if t \<noteq> [] then '','' else []) = t"
  by (cases t) auto

lemma all_space: "list_all (cls_has Space) w = list_all is_space w"
  by (induction w) auto

lemma all_nocomma: "list_all (cls_has (NoneOf '','')) t = (CHR '','' \<notin> set t)"
  by (induction t) auto

lemma pattern_sound:
  assumes "re_match pattern s = Some (gs, rest)"
  shows "\<exists>c. shaped c \<and> s = render_onto c rest \<and>
           gs = [site_indent c, site_id c, site_method c, site_params c]"
  using assms unfolding pattern_def
  apply -
  apply ((drule inv_group inv_lit inv_one inv_star inv_opt, elim exE conjE)+)
  apply (rule_tac x = "\<lparr>site_indent = t,
      site_gaps = [w, wa, wb, wc, wd, we, wf, wg, wh, wi, wj, wk, wl, wn],
      site_quotes = [x, xa, xb, xc, xd, xe, xf, xg, xh, xi],
      site_id = ta, site_method = tb, site_params = tc,
      site_comma = (wm \<noteq> [])\<rparr>" in exI)
  apply (simp only: re_match.simps option.inject prod.inject)
  apply (elim conjE)
  apply hypsubst
  apply (intro conjI)
  subgoal by (simp add: shaped_def quote_def is_quote_def all_space all_nocomma)
  subgoal by (simp add: render_onto_def gap_def qt_def opt_comma)
  subgoal by simp
  done

lemma pattern_consumes:
  assumes "re_match pattern s = Some (gs, rest)"
  shows "length rest < length s"
proof -
  from pattern_sound [OF assms] obtain c where "s = render_onto c rest" by blast
  then show ?thesis by (simp add: render_onto_def)
qed

lemma re_search_sound:
  "re_search p s = Some (pre, gs, rest) \<Longrightarrow>
     \<exists>m. s = pre @ m \<and> re_match p m = Some (gs, rest)"
proof (induction s arbitrary: pre)
  case Nil
  then show ?case by (auto split: option.splits)
next
  case (Cons c cs)
  show ?case
  proof (cases "re_match p (c # cs)")
    case None
    with Cons.prems obtain pre' where
      "re_search p cs = Some (pre', gs, rest)" "pre = c # pre'"
      by (auto split: option.splits)
    with Cons.IH show ?thesis by fastforce
  next
    case (Some r)
    with Cons.prems show ?thesis by (cases r) auto
  qed
qed

lemma re_search_NoneD: "re_search p s = None \<Longrightarrow> re_match p (drop k s) = None"
proof (induction s arbitrary: k)
  case Nil
  then show ?case by (auto split: option.splits)
next
  case (Cons c cs)
  then have a: "re_match p (c # cs) = None" "re_search p cs = None"
    by (auto split: option.splits)
  show ?case
  proof (cases k)
    case 0
    with a show ?thesis by simp
  next
    case (Suc n)
    with a Cons.IH show ?thesis by simp
  qed
qed

lemma re_search_NoneI: "(\<And>k. re_match p (drop k s) = None) \<Longrightarrow> re_search p s = None"
proof (induction s)
  case Nil
  from Nil [of 0] show ?case by simp
next
  case (Cons c cs)
  have "re_match p (c # cs) = None" using Cons.prems [of 0] by simp
  moreover have "re_search p cs = None"
  proof (rule Cons.IH)
    fix k show "re_match p (drop k cs) = None" using Cons.prems [of "Suc k"] by simp
  qed
  ultimately show ?case by simp
qed

lemma re_search_found: "re_match p t = Some r \<Longrightarrow> re_search p (a @ t) \<noteq> None"
proof (induction a)
  case Nil
  then show ?case by (cases t; cases r) auto
next
  case (Cons c a)
  then show ?case by (auto split: option.splits)
qed

lemma pattern_search_consumes:
  assumes "re_search pattern s = Some (pre, gs, rest)"
  shows "length rest < length s"
proof -
  from re_search_sound [OF assms] obtain m where
    "s = pre @ m" "re_match pattern m = Some (gs, rest)" by blast
  then show ?thesis using pattern_consumes [of m gs rest] by simp
qed

lemma transform_no_match: "re_search pattern s = None \<Longrightarrow> transform s = s"
  by (simp add: transform_def re_sub.simps)

lemma transform_match:
  assumes "re_search pattern s = Some (pre, gs, rest)"
  shows "transform s = pre @ transform_request gs @ transform rest"
  using assms pattern_search_consumes [OF assms]
  by (simp add: transform_def re_sub.simps [of pattern transform_request s])

lemma needs_space:
  assumes "s = [] \<or> \<not> is_space (hd s)"
  shows "re_match pattern s = None"
proof (cases "re_match pattern s")
  case None
  then show ?thesis .
next
  case (Some r)
  obtain gs rest where "r = (gs, rest)" by (cases r)
  with Some pattern_sound [of s gs rest] obtain c where
    "shaped c" "s = render_onto c rest" by blast
  then have "s \<noteq> [] \<and> is_space (hd s)"
    by (cases "site_indent c") (auto simp: shaped_def render_onto_def)
  with assms show ?thesis by blast
qed

lemma no_match_abc: "re_search pattern ''abc'' = None"
  by (simp add: needs_space is_space_def)

lemma gap_space: "shaped c \<Longrightarrow> n < 14 \<Longrightarrow> list_all (cls_has Space) (gap c n)"
  by (simp add: shaped_def gap_def all_space list_all_length)

lemma qt_quote: "shaped c \<Longrightarrow> n < 10 \<Longrightarrow> cls_has quote (qt c n)"
  by (auto simp: shaped_def qt_def quote_def is_quote_def list_all_length)

lemma qt_not_space: "shaped c \<Longrightarrow> n < 10 \<Longrightarrow> \<not> is_space (qt c n)"
  using qt_quote [of c n] by (auto simp: quote_def is_space_def)

lemma run_stop: "t \<noteq> [] \<Longrightarrow> \<not> cls_has c (hd t) \<Longrightarrow> run c (t @ s) = 0"
  by (cases t) auto

lemma upto_semicolon:
  "CHR '';'' \<notin> set a \<Longrightarrow> takeWhile (\<lambda>x. x \<noteq> CHR '';'') (a @ '']);'' @ b) = a @ ''])''"
  by (induction a) auto

lemma before_close:
  assumes "a @ '']);'' @ b = a' @ '']);'' @ b'" "CHR '';'' \<notin> set a" "CHR '';'' \<notin> set a'"
  shows "a = a'"
proof -
  have "takeWhile (\<lambda>x. x \<noteq> CHR '';'') (a @ '']);'' @ b) = a @ ''])''"
    using assms(2) by (rule upto_semicolon)
  moreover have "takeWhile (\<lambda>x. x \<noteq> CHR '';'') (a' @ '']);'' @ b') = a' @ ''])''"
    using assms(3) by (rule upto_semicolon)
  ultimately have "a @ ''])'' = a' @ ''])''"
    using assms(1) by (simp only:)
  then show ?thesis by simp
qed

lemma closing_sound:
  assumes "re_match closing s = Some (gs, rest)"
  shows "\<exists>a. s = a @ '']);'' @ rest \<and> list_all (\<lambda>x. x = CHR '','' \<or> is_space x) a"
proof -
  from assms obtain wm s1 where 1: "s = wm @ s1" "list_all (cls_has (OneOf '','')) wm"
    "re_match [Star Space, Lit '']);''] s1 = Some (gs, rest)"
    unfolding closing_def by (blast dest: inv_opt)
  from 1(3) obtain wn s2 where 2: "s1 = wn @ s2" "list_all (cls_has Space) wn"
    "re_match [Lit '']);''] s2 = Some (gs, rest)"
    by (blast dest: inv_star)
  from 2(3) obtain s3 where 3: "s2 = '']);'' @ s3" "re_match [] s3 = Some (gs, rest)"
    by (blast dest: inv_lit)
  have "s = (wm @ wn) @ '']);'' @ rest" using 1(1) 2(1) 3 by simp
  moreover have "list_all (\<lambda>x. x = CHR '','' \<or> is_space x) (wm @ wn)"
    using 1(2) 2(2) by (auto simp: list_all_iff)
  ultimately show ?thesis by blast
qed

lemma not_semi: "list_all (\<lambda>x. x = CHR '','' \<or> is_space x) v \<Longrightarrow> CHR '';'' \<notin> set v"
  by (induction v) (auto simp: is_space_def)

lemma params_minimal:
  assumes "u \<noteq> []" "CHR '';'' \<notin> set u" "\<not> is_space (last u)" "last u \<noteq> CHR '',''"
    and "list_all (\<lambda>x. x = CHR '','' \<or> is_space x) v"
  shows "re_match closing (u @ v @ '']);'' @ rest) = None"
proof (cases "re_match closing (u @ v @ '']);'' @ rest)")
  case None
  then show ?thesis .
next
  case (Some r)
  obtain gs rest' where r: "r = (gs, rest')" by (cases r)
  have m: "re_match closing (u @ v @ '']);'' @ rest) = Some (gs, rest')"
    using Some r by simp
  from closing_sound [OF m] obtain a where
    a: "u @ v @ '']);'' @ rest = a @ '']);'' @ rest'"
       "list_all (\<lambda>x. x = CHR '','' \<or> is_space x) a"
    by (elim exE conjE)
  have nv: "CHR '';'' \<notin> set v" using assms(5) by (rule not_semi)
  have na: "CHR '';'' \<notin> set a" using a(2) by (rule not_semi)
  have e: "(u @ v) @ '']);'' @ rest = a @ '']);'' @ rest'" using a(1) by simp
  have nuv: "CHR '';'' \<notin> set (u @ v)" using assms(2) nv by simp
  have uv: "u @ v = a" using e nuv na by (rule before_close)
  have "last u \<in> set u" using assms(1) by simp
  then have "last u \<in> set a" using uv by auto
  then have "last u = CHR '','' \<or> is_space (last u)"
    using a(2) by (simp add: list_all_iff)
  with assms(3,4) show ?thesis by simp
qed

lemma run_space_qt: "shaped c \<Longrightarrow> n < 10 \<Longrightarrow> run Space (qt c n # s) = 0"
  using qt_not_space [of c n] by simp

lemma closing_match:
  assumes "list_all (cls_has Space) w"
  shows "re_match closing ((if b then '','' else []) @ w @ '']);'' @ rest) = Some ([], rest)"
proof -
  have tail: "re_match [Star Space, Lit '']);''] (w @ '']);'' @ rest) = Some ([], rest)"
    by (rule go_star [OF assms]) (simp_all add: is_space_def)
  show ?thesis
  proof (cases b)
    case True
    have "re_match (Opt (OneOf '','') # [Star Space, Lit '']);'']) (CHR '','' # w @ '']);'' @ rest)
        = Some ([], rest)"
      by (rule go_opt_take [OF _ tail]) simp
    with True show ?thesis by (simp add: closing_def)
  next
    case False
    have "run (OneOf '','') (w @ '']);'' @ rest) = 0"
    proof (cases w)
      case Nil
      then show ?thesis by simp
    next
      case (Cons x xs)
      with assms have "is_space x" by simp
      then have "x \<noteq> CHR '',''" by (auto simp: is_space_def)
      with Cons show ?thesis by simp
    qed
    then have "re_match (Opt (OneOf '','') # [Star Space, Lit '']);'']) (w @ '']);'' @ rest)
        = Some ([], rest)"
      using tail by (rule go_opt_skip)
    with False show ?thesis by (simp add: closing_def)
  qed
qed

lemma pattern_complete:
  assumes wf: "well_formed c"
  shows "re_match pattern (render_onto c rest)
         = Some ([site_indent c, site_id c, site_method c, site_params c], rest)"
proof -
  have sh: "shaped c" using wf by (simp add: well_formed_def)
  note g = gap_space [OF sh] and q = qt_quote [OF sh] and rq = run_space_qt [OF sh]
  have ind: "site_indent c \<noteq> []" "list_all (cls_has Space) (site_indent c)"
    using sh by (simp_all add: shaped_def all_space)
  have idv: "site_id c \<noteq> []" "list_all (cls_has (NoneOf '','')) (site_id c)"
    "\<not> cls_has Space (hd (site_id c))"
    using wf by (simp_all add: well_formed_def shaped_def all_nocomma)
  have mth: "site_method c \<noteq> []" "list_all (cls_has (NoneOf '','')) (site_method c)"
    "\<not> cls_has Space (hd (site_method c))"
    using wf by (simp_all add: well_formed_def shaped_def all_nocomma)
  have par: "site_params c \<noteq> []" "\<not> cls_has Space (hd (site_params c))"
    using wf by (simp_all add: well_formed_def shaped_def)
  let ?v = "(if site_comma c then '','' else []) @ gap c 13"
  have v: "list_all (\<lambda>x. x = CHR '','' \<or> is_space x) ?v"
    using g [of 13] by (auto simp: list_all_iff)
  have lazy: "\<forall>k. 0 < k \<and> k < length (site_params c) \<longrightarrow>
      re_match closing (drop k (site_params c) @
        (if site_comma c then '','' else []) @ gap c 13 @ '']);'' @ rest) = None"
  proof (intro allI impI)
    fix k assume k: "0 < k \<and> k < length (site_params c)"
    have "re_match closing (drop k (site_params c) @ ?v @ '']);'' @ rest) = None"
    proof (rule params_minimal [OF _ _ _ _ v])
      show "drop k (site_params c) \<noteq> []" using k by simp
      show "CHR '';'' \<notin> set (drop k (site_params c))"
        using wf by (auto simp: well_formed_def dest: in_set_dropD)
      show "\<not> is_space (last (drop k (site_params c)))"
        using wf k by (simp add: well_formed_def)
      show "last (drop k (site_params c)) \<noteq> CHR '',''"
        using wf k by (simp add: well_formed_def)
    qed
    then show "re_match closing (drop k (site_params c) @
        (if site_comma c then '','' else []) @ gap c 13 @ '']);'' @ rest) = None"
      by simp
  qed
  have close: "re_match closing ((if site_comma c then '','' else []) @ gap c 13 @ '']);'' @ rest)
      = Some ([], rest)"
    by (rule closing_match [OF g]) simp
  have tailm: "re_match (Group (LazyPlus Dot) # closing)
      (site_params c @ (if site_comma c then '','' else []) @ gap c 13 @ '']);'' @ rest)
      = Some ([site_params c], rest)"
    by (rule go_group_lazy [OF par(1) lazy close])
  show ?thesis
    unfolding pattern_def render_onto_def
    apply (rule go_group_plus [OF ind])
     apply (simp add: is_space_def)
    apply (rule go_lit)
    apply (rule go_star [OF g], simp, rule rq, simp)
    apply (rule go_one [OF q], simp)
    apply (rule go_lit)
    apply (rule go_one [OF q], simp)
    apply (rule go_star [OF g], simp, simp add: is_space_def)
    apply (rule go_lit)
    apply (rule go_star [OF g], simp, rule rq, simp)
    apply (rule go_one [OF q], simp)
    apply (rule go_lit)
    apply (rule go_one [OF q], simp)
    apply (rule go_star [OF g], simp, simp add: is_space_def)
    apply (rule go_lit)
    apply (rule go_star [OF g], simp, rule rq, simp)
    apply (rule go_one [OF q], simp)
    apply (rule go_lit)
    apply (rule go_one [OF q], simp)
    apply (rule go_star [OF g], simp, simp add: is_space_def)
    apply (rule go_lit)
    apply (rule go_star [OF g], simp, rule run_stop [OF idv(1) idv(3)])
    apply (rule go_group_plus [OF idv(1) idv(2)], simp)
    apply (rule go_lit)
    apply (rule go_star [OF g], simp, rule rq, simp)
    apply (rule go_one [OF q], simp)
    apply (rule go_lit)
    apply (rule go_one [OF q], simp)
    apply (rule go_star [OF g], simp, simp add: is_space_def)
    apply (rule go_lit)
    apply (rule go_star [OF g], simp, rule run_stop [OF mth(1) mth(3)])
    apply (rule go_group_plus [OF mth(1) mth(2)], simp)
    apply (rule go_lit)
    apply (rule go_star [OF g], simp, rule rq, simp)
    apply (rule go_one [OF q], simp)
    apply (rule go_lit)
    apply (rule go_one [OF q], simp)
    apply (rule go_star [OF g], simp, simp add: is_space_def)
    apply (rule go_lit)
    apply (rule go_star [OF g], simp, rule run_stop [OF par(1) par(2)])
    apply (rule tailm [unfolded closing_def])
    done
qed

lemma pattern_groups: "re_match pattern s = Some (gs, rest) \<Longrightarrow> length gs = 4"
  by (drule pattern_sound) auto

lemma newlines_from_id: "CHR 0x0D \<notin> set s \<Longrightarrow> newlines_from False s = s"
  by (induction s) auto

lemma universal_newlines_id: "CHR 0x0D \<notin> set s \<Longrightarrow> universal_newlines s = s"
  by (simp add: universal_newlines_def newlines_from_id)

lemma script_usable:
  "usable w \<Longrightarrow> script w =
     (Inr (), w\<lparr>file_text := transform (universal_newlines (file_text w)),
                file_writes := Suc (file_writes w),
                stdout := stdout w @ [''Transformation complete!'']\<rparr>)"
  by (simp add: usable_def script_def open_read_def open_write_def print_line_def)

lemma sublist_prepend: "sublist xs ys \<Longrightarrow> sublist xs (zs @ ys)"
proof -
  assume "sublist xs ys"
  then obtain ps ss where "ys = ps @ xs @ ss" by (auto simp: sublist_def)
  then have "zs @ ys = (zs @ ps) @ xs @ ss" by simp
  then show ?thesis unfolding sublist_def by blast
qed

lemma lit_sublist:
  "re_match p s = Some (gs, rest) \<Longrightarrow> Lit l \<in> set p \<Longrightarrow> sublist l s"
proof (induction p arbitrary: s gs)
  case Nil
  then show ?case by simp
next
  case (Cons i p)
  from re_match_ConsD [OF Cons.prems(1)] obtain t s' gs' where
    a: "s = t @ s'" "accepts i t" "re_match p s' = Some (gs', rest)"
    by blast
  show ?case
  proof (cases "i = Lit l")
    case True
    with a(2) have "t = l" by simp
    with a(1) show ?thesis by simp
  next
    case False
    with Cons.prems(2) have "Lit l \<in> set p" by simp
    from Cons.IH [OF a(3) this] have "sublist l s'" .
    then show ?thesis unfolding a(1) by (rule sublist_prepend)
  qed
qed

lemma search_sublist:
  assumes "re_search p s = Some (pre, gs, rest)" "Lit l \<in> set p"
  shows "sublist l s"
proof -
  from re_search_sound [OF assms(1)] obtain m where
    m: "s = pre @ m" "re_match p m = Some (gs, rest)" by blast
  from lit_sublist [OF m(2) assms(2)] have "sublist l m" .
  then show ?thesis unfolding m(1) by (rule sublist_prepend)
qed

lemma no_match_without:
  assumes "Lit l \<in> set pattern" "\<not> sublist l s"
  shows "re_search pattern s = None"
proof (cases "re_search pattern s")
  case None
  then show ?thesis .
next
  case (Some x)
  obtain pre gs rest where "x = (pre, gs, rest)" by (cases x)
  with Some search_sublist [OF _ assms(1)] assms(2) show ?thesis by blast
qed

lemma jsonrpc_in_pattern: "Lit ''jsonrpc'' \<in> set pattern"
  by (simp add: pattern_def)

lemma no_match_crlf: "re_search pattern [CHR ''a'', CHR 0x0A, CHR ''b''] = None"
  by (rule no_match_without [OF jsonrpc_in_pattern]) (simp add: sublist_Cons_right)

lemma search_at_start:
  "re_match p s = Some (gs, rest) \<Longrightarrow> re_search p s = Some ([], gs, rest)"
  by (cases s) simp_all

lemma search_Nil: "re_search pattern [] = None"
  by (simp add: needs_space)

lemma transform_Nil: "transform [] = []"
  by (rule transform_no_match) (rule search_Nil)

lemma transform_site:
  assumes "well_formed c"
  shows "transform (render_onto c rest)
         = transform_request [site_indent c, site_id c, site_method c, site_params c]
           @ transform rest"
  using transform_match [OF search_at_start [OF pattern_complete [OF assms]]] by simp

lemma example_match:
  "re_match pattern
     (''    $requestObject = RequestObjectData::from(['jsonrpc' => '2.0', 'id' => $id, 'method' => 'foo', 'params' => $args]);'' @ rest)
   = Some ([''    '', ''$id'', CHR 0x27 # ''foo'' @ [CHR 0x27], ''$args''], rest)"
proof -
  let ?c = "\<lparr>site_indent = ''    '',
      site_gaps = [[], '' '', '' '', [], '' '', '' '', '' '', '' '', '' '', '' '', '' '',
                   '' '', '' '', []],
      site_quotes = [CHR 0x27, CHR 0x27, CHR 0x27, CHR 0x27, CHR 0x27, CHR 0x27, CHR 0x27,
                     CHR 0x27, CHR 0x27, CHR 0x27],
      site_id = ''$id'', site_method = CHR 0x27 # ''foo'' @ [CHR 0x27],
      site_params = ''$args'', site_comma = False\<rparr>"
  have "well_formed ?c"
    by (simp add: well_formed_def shaped_def is_space_def is_quote_def)
  from pattern_complete [OF this, of rest] show ?thesis
    by (simp add: render_onto_def gap_def qt_def numeral_nat)
qed

lemma search_head:
  assumes "re_search pattern s = Some (pre, gs, rest)"
  shows "\<exists>ind m. s = pre @ ind @ ''$requestObject'' @ m \<and> ind \<noteq> [] \<and> list_all is_space ind"
proof -
  from re_search_sound [OF assms] obtain t where
    s: "s = pre @ t" and t: "re_match pattern t = Some (gs, rest)"
    by (elim exE conjE)
  from pattern_sound [OF t] obtain c where
    c: "shaped c" and r: "t = render_onto c rest"
    by (elim exE conjE)
  from c have i: "site_indent c \<noteq> []" "list_all is_space (site_indent c)"
    by (simp_all add: shaped_def)
  from r have "\<exists>m. t = site_indent c @ ''$requestObject'' @ m"
    by (simp add: render_onto_def)
  with s i show ?thesis by blast
qed

lemma no_match_without_head:
  assumes "\<not> sublist ''$requestObject'' (tl s)"
  shows "re_search pattern s = None"
proof (cases "re_search pattern s")
  case None
  then show ?thesis .
next
  case (Some r)
  obtain pre gs rest where r: "r = (pre, gs, rest)" by (cases r)
  from search_head [OF Some [unfolded r]] obtain ind m where
    s: "s = pre @ ind @ ''$requestObject'' @ m" and i: "ind \<noteq> []"
    by (elim exE conjE)
  from i obtain x q where q: "pre @ ind = x # q" by (cases "pre @ ind") auto
  from s have "s = (pre @ ind) @ ''$requestObject'' @ m" by simp
  then have "tl s = q @ ''$requestObject'' @ m" unfolding q by simp
  then have "sublist ''$requestObject'' (tl s)"
    using sublist_appendI [of "''$requestObject''" q m] by simp
  with assms show ?thesis by simp
qed

lemma well_formed_indent:
  "well_formed c \<Longrightarrow> ind \<noteq> [] \<Longrightarrow> list_all is_space ind \<Longrightarrow>
     well_formed (c\<lparr>site_indent := ind\<rparr>)"
  by (simp add: well_formed_def shaped_def)

lemma match_head:
  assumes "re_match pattern t = Some (gs, rest)"
  shows "\<exists>ind m. t = ind @ ''$requestObject'' @ m \<and> ind \<noteq> [] \<and> list_all is_space ind"
proof -
  from pattern_sound [OF assms] obtain c where
    c: "shaped c" and r: "t = render_onto c rest"
    by (elim exE conjE)
  from c have i: "site_indent c \<noteq> []" "list_all is_space (site_indent c)"
    by (simp_all add: shaped_def)
  from r have "\<exists>m. t = site_indent c @ ''$requestObject'' @ m"
    by (simp add: render_onto_def)
  with i show ?thesis by blast
qed

lemma head_no_space: "v \<in> set ''$requestObject'' \<Longrightarrow> \<not> is_space v"
  by (auto simp: is_space_def)

lemma no_match_across:
  assumes ne: "pre \<noteq> []" and l: "\<not> is_space (last pre)"
    and ns: "\<not> sublist ''$requestObject'' pre"
    and i: "ind \<noteq> []" "list_all is_space ind"
  shows "re_match pattern (pre @ ind @ ''$requestObject'' @ m) = None"
proof (cases "re_match pattern (pre @ ind @ ''$requestObject'' @ m)")
  case None
  then show ?thesis .
next
  case (Some r)
  obtain gs rest where r: "r = (gs, rest)" by (cases r)
  from match_head [OF Some [unfolded r]] obtain ind' m' where
    e: "pre @ ind @ ''$requestObject'' @ m = ind' @ ''$requestObject'' @ m'"
    and i': "ind' \<noteq> []" "list_all is_space ind'"
    by (elim exE conjE)
  from e obtain us where
    "(pre = ind' @ us \<and> us @ ind @ ''$requestObject'' @ m = ''$requestObject'' @ m')
     \<or> (pre @ us = ind' \<and> ind @ ''$requestObject'' @ m = us @ ''$requestObject'' @ m')"
    unfolding append_eq_append_conv2 by (elim exE)
  then show ?thesis
  proof (elim disjE conjE)
    assume "pre @ us = ind'"
    with ne have "last pre \<in> set ind'" by auto
    with i'(2) have "is_space (last pre)" by (simp add: list_all_iff)
    with l show ?thesis by simp
  next
    assume p: "pre = ind' @ us"
      and u: "us @ ind @ ''$requestObject'' @ m = ''$requestObject'' @ m'"
    have un: "us \<noteq> []"
    proof
      assume "us = []"
      with p i' have "last pre \<in> set ind'" by simp
      with i'(2) have "is_space (last pre)" by (simp add: list_all_iff)
      with l show False by simp
    qed
    from u obtain vs where
      "(us = ''$requestObject'' @ vs \<and> vs @ ind @ ''$requestObject'' @ m = m')
       \<or> (us @ vs = ''$requestObject'' \<and> ind @ ''$requestObject'' @ m = vs @ m')"
      unfolding append_eq_append_conv2 by (elim exE)
    then show ?thesis
    proof (elim disjE conjE)
      assume "us = ''$requestObject'' @ vs"
      with p have "pre = ind' @ ''$requestObject'' @ vs" by simp
      then have "sublist ''$requestObject'' pre"
        using sublist_appendI [of "''$requestObject''" ind' vs] by simp
      with ns show ?thesis by simp
    next
      assume a: "us @ vs = ''$requestObject''"
        and b: "ind @ ''$requestObject'' @ m = vs @ m'"
      show ?thesis
      proof (cases vs)
        case Nil
        with a p have "pre = ind' @ ''$requestObject'' @ []" by simp
        then have "sublist ''$requestObject'' pre"
          using sublist_appendI [of "''$requestObject''" ind' "[]"] by simp
        with ns show ?thesis by simp
      next
        case (Cons v vs')
        from i obtain x ind'' where x: "ind = x # ind''" by (cases ind) auto
        with b Cons have "v = x" by simp
        with x i(2) have "is_space v" by simp
        moreover from a Cons have "v \<in> set ''$requestObject''"
          by (metis in_set_conv_decomp)
        ultimately show ?thesis using head_no_space by blast
      qed
    qed
  qed
qed

lemma search_after:
  assumes "pre = [] \<or> \<not> is_space (last pre)"
    and "\<not> sublist ''$requestObject'' pre"
    and "ind \<noteq> []" "list_all is_space ind"
    and "re_match pattern (ind @ ''$requestObject'' @ m) = Some (gs, rest)"
  shows "re_search pattern (pre @ ind @ ''$requestObject'' @ m) = Some (pre, gs, rest)"
  using assms(1,2)
proof (induction pre)
  case Nil
  from assms(5) show ?case by (simp add: search_at_start)
next
  case (Cons x pre)
  from Cons.prems have l: "\<not> is_space (last (x # pre))" by simp
  have n: "re_match pattern ((x # pre) @ ind @ ''$requestObject'' @ m) = None"
    by (rule no_match_across [OF _ l Cons.prems(2) assms(3,4)]) simp
  from Cons.prems have "pre = [] \<or> \<not> is_space (last pre)" by (cases pre) auto
  moreover from Cons.prems(2) have "\<not> sublist ''$requestObject'' pre"
    by (simp add: sublist_Cons_right)
  ultimately have "re_search pattern (pre @ ind @ ''$requestObject'' @ m) = Some (pre, gs, rest)"
    by (rule Cons.IH)
  with n show ?case by simp
qed

lemma search_site:
  assumes "well_formed c" and "pre = [] \<or> \<not> is_space (last pre)"
    and "\<not> sublist ''$requestObject'' pre"
  shows "re_search pattern (pre @ render_onto c rest)
         = Some (pre, [site_indent c, site_id c, site_method c, site_params c], rest)"
proof -
  from assms(1) have i: "site_indent c \<noteq> []" "list_all is_space (site_indent c)"
    by (simp_all add: well_formed_def shaped_def)
  obtain m where m: "render_onto c rest = site_indent c @ ''$requestObject'' @ m"
    by (simp add: render_onto_def)
  from pattern_complete [OF assms(1), of rest]
  have "re_match pattern (site_indent c @ ''$requestObject'' @ m)
        = Some ([site_indent c, site_id c, site_method c, site_params c], rest)"
    unfolding m .
  from search_after [OF assms(2,3) i this] show ?thesis unfolding m .
qed



lemma render_onto_render: "render_onto c rest = render c @ rest"
  by (simp add: render_def render_onto_def)

lemma search_shaped:
  assumes "re_search pattern s = Some (pre, gs, rest)"
  shows "\<exists>c. shaped c \<and> s = pre @ render c @ rest \<and>
           gs = [site_indent c, site_id c, site_method c, site_params c]"
proof -
  from re_search_sound [OF assms] obtain t where
    s: "s = pre @ t" and t: "re_match pattern t = Some (gs, rest)"
    by (elim exE conjE)
  from pattern_sound [OF t] obtain c where
    "shaped c" "t = render_onto c rest"
    "gs = [site_indent c, site_id c, site_method c, site_params c]"
    by (elim exE conjE)
  with s show ?thesis by (auto simp: render_onto_render)
qed

lemma transform_request_lines:
  "transform_request [i, d, m, p] =
     i @ ''$requestObject = RequestObjectData::from(['' @ nl @
     i @ ''    'protocol' => VendProtocol::VERSION,'' @ nl @
     i @ ''    'id' => '' @ d @ '','' @ nl @
     i @ ''    'call' => CallData::from(['' @ nl @
     i @ ''        'function' => '' @ m @ '','' @ nl @
     i @ ''        'arguments' => '' @ p @ '','' @ nl @
     i @ ''    ]),'' @ nl @
     i @ '']);''"
  by (simp add: transform_request_def group_def)

lemma keys_in_pattern:
  "l \<in> set [''jsonrpc'', ''id'', ''method'', ''params'', '']);''] \<Longrightarrow> Lit l \<in> set pattern"
  by (auto simp: pattern_def)

lemma unclosed_match:
  "re_match pattern
     (''    $requestObject = RequestObjectData::from(['jsonrpc' => '2.0', 'id' => $id, 'method' => $m, 'params' => $args'' @ nl @ ''    $other = foo([3]);'' @ rest)
   = Some ([''    '', ''$id'', ''$m'', ''$args'' @ nl @ ''    $other = foo([3''], rest)"
proof -
  let ?c = "\<lparr>site_indent = ''    '',
      site_gaps = [[], '' '', '' '', [], '' '', '' '', '' '', '' '', '' '', '' '', '' '',
                   '' '', '' '', []],
      site_quotes = [CHR 0x27, CHR 0x27, CHR 0x27, CHR 0x27, CHR 0x27, CHR 0x27, CHR 0x27,
                     CHR 0x27, CHR 0x27, CHR 0x27],
      site_id = ''$id'', site_method = ''$m'',
      site_params = ''$args'' @ nl @ ''    $other = foo([3'', site_comma = False\<rparr>"
  have "well_formed ?c"
    by (simp add: well_formed_def shaped_def is_space_def is_quote_def nl_def)
  from pattern_complete [OF this, of rest] show ?thesis
    by (simp add: render_onto_def gap_def qt_def numeral_nat)
qed

section \<open>The claims\<close>

text \<open>
  C7. If the file does not exist, may not be read or may not be written, the script ends
  with the error that \<^verbatim>\<open>open\<close> or \<^verbatim>\<open>read\<close> raised, unchanged; the file has the content
  it had, it has not been written, and nothing has been printed.
\<close>

theorem script_errors:
  assumes "\<not> file_exists w \<or> \<not> file_readable w \<or> \<not> file_writable w"
  shows "script w =
     (Inl (if \<not> file_exists w then FileNotFoundError
           else if \<not> file_readable w then PermissionError
           else if \<not> file_decodes w then UnicodeDecodeError
           else PermissionError), w)"
  using assms by (auto simp: script_def open_read_def open_write_def)

theorem script_errors_witness:
  "script \<lparr>file_exists = False, file_readable = False, file_decodes = True,
           file_writable = True, file_text = ''abc'', file_writes = 0, stdout = []\<rparr>
   = (Inl FileNotFoundError,
      \<lparr>file_exists = False, file_readable = False, file_decodes = True,
       file_writable = True, file_text = ''abc'', file_writes = 0, stdout = []\<rparr>)"
  using script_errors [of "\<lparr>file_exists = False, file_readable = False, file_decodes = True,
           file_writable = True, file_text = ''abc'', file_writes = 0, stdout = []\<rparr>"]
  by simp

text \<open>
  C5, as the code has it. When the pattern matches nowhere in the text read from the file,
  the transform returns that text as it is; the script still writes the file, with the text
  as read, and prints \<^verbatim>\<open>Transformation complete!\<close>. The text as read is the content of
  the file with \<^verbatim>\<open>CR LF\<close> and \<^verbatim>\<open>CR\<close> turned into \<^verbatim>\<open>LF\<close>, so the content is unchanged
  when the file holds no \<^verbatim>\<open>CR\<close>. Every run on a usable file, with matches or without,
  ends with the same result, one write and the same message.
\<close>

theorem zero_matches:
  assumes "re_search pattern (universal_newlines (file_text w)) = None"
    and "usable w"
  shows "transform (universal_newlines (file_text w)) = universal_newlines (file_text w) \<and>
     script w = (Inr (), w\<lparr>file_text := universal_newlines (file_text w),
                             file_writes := Suc (file_writes w),
                             stdout := stdout w @ [''Transformation complete!'']\<rparr>) \<and>
     (CHR 0x0D \<notin> set (file_text w) \<longrightarrow> file_text (snd (script w)) = file_text w) \<and>
     (\<forall>w'. usable w' \<longrightarrow>
        fst (script w') = fst (script w) \<and>
        file_writes (snd (script w')) = Suc (file_writes w') \<and>
        stdout (snd (script w')) = stdout w' @ [''Transformation complete!''])"
proof -
  have t: "transform (universal_newlines (file_text w)) = universal_newlines (file_text w)"
    using assms(1) by (rule transform_no_match)
  have s: "script w = (Inr (), w\<lparr>file_text := universal_newlines (file_text w),
                             file_writes := Suc (file_writes w),
                             stdout := stdout w @ [''Transformation complete!'']\<rparr>)"
    using assms(2) t by (simp add: script_usable)
  have k: "CHR 0x0D \<notin> set (file_text w) \<longrightarrow> file_text (snd (script w)) = file_text w"
    using s by (simp add: universal_newlines_id)
  have o: "\<forall>w'. usable w' \<longrightarrow>
        fst (script w') = fst (script w) \<and>
        file_writes (snd (script w')) = Suc (file_writes w') \<and>
        stdout (snd (script w')) = stdout w' @ [''Transformation complete!'']"
    using s by (simp add: script_usable)
  from t s k o show ?thesis by blast
qed

theorem zero_matches_witness:
  "transform ''abc'' = ''abc'' \<and>
   script \<lparr>file_exists = True, file_readable = True, file_decodes = True,
           file_writable = True, file_text = ''abc'', file_writes = 0, stdout = []\<rparr>
   = (Inr (),
      \<lparr>file_exists = True, file_readable = True, file_decodes = True,
       file_writable = True, file_text = ''abc'', file_writes = 1,
       stdout = [''Transformation complete!'']\<rparr>)"
proof -
  let ?w = "\<lparr>file_exists = True, file_readable = True, file_decodes = True,
           file_writable = True, file_text = ''abc'', file_writes = 0, stdout = []\<rparr>"
  have u: "universal_newlines (file_text ?w) = ''abc''"
    by (simp add: universal_newlines_def)
  have n: "re_search pattern (universal_newlines (file_text ?w)) = None"
    unfolding u by (rule no_match_abc)
  have us: "usable ?w" by (simp add: usable_def)
  from zero_matches [OF n us] show ?thesis unfolding u by simp
qed

text \<open>
  The claim as the spec states it, with the content of the file unchanged, fails on a file
  with a \<^verbatim>\<open>CR LF\<close> line end: no match, and the file is written back with \<^verbatim>\<open>LF\<close>.
\<close>

theorem zero_matches_counterexample:
  "usable \<lparr>file_exists = True, file_readable = True, file_decodes = True,
           file_writable = True, file_text = [CHR ''a'', CHR 0x0D, CHR 0x0A, CHR ''b''],
           file_writes = 0, stdout = []\<rparr> \<and>
   re_search pattern (universal_newlines [CHR ''a'', CHR 0x0D, CHR 0x0A, CHR ''b'']) = None \<and>
   file_text (snd (script \<lparr>file_exists = True, file_readable = True, file_decodes = True,
           file_writable = True, file_text = [CHR ''a'', CHR 0x0D, CHR 0x0A, CHR ''b''],
           file_writes = 0, stdout = []\<rparr>))
     \<noteq> [CHR ''a'', CHR 0x0D, CHR 0x0A, CHR ''b'']"
proof -
  let ?w = "\<lparr>file_exists = True, file_readable = True, file_decodes = True,
           file_writable = True, file_text = [CHR ''a'', CHR 0x0D, CHR 0x0A, CHR ''b''],
           file_writes = 0, stdout = []\<rparr>"
  have u: "universal_newlines [CHR ''a'', CHR 0x0D, CHR 0x0A, CHR ''b'']
      = [CHR ''a'', CHR 0x0A, CHR ''b'']"
    by (simp add: universal_newlines_def)
  have n: "re_search pattern (universal_newlines [CHR ''a'', CHR 0x0D, CHR 0x0A, CHR ''b'']) = None"
    unfolding u by (rule no_match_crlf)
  have us: "usable ?w" by (simp add: usable_def)
  have t: "transform [CHR ''a'', CHR 0x0A, CHR ''b''] = [CHR ''a'', CHR 0x0A, CHR ''b'']"
    using no_match_crlf by (rule transform_no_match)
  have "file_text (snd (script ?w)) = [CHR ''a'', CHR 0x0A, CHR ''b'']"
    unfolding script_usable [OF us] by (simp add: u t)
  then have "file_text (snd (script ?w)) \<noteq> [CHR ''a'', CHR 0x0D, CHR 0x0A, CHR ''b'']"
    by simp
  with us n show ?thesis by blast
qed

text \<open>
  C6. The call \<^verbatim>\<open>$requestObject = RequestObjectData::from([...])\<close> with the keys
  \<^verbatim>\<open>jsonrpc\<close>, \<^verbatim>\<open>id\<close>, \<^verbatim>\<open>method\<close> and \<^verbatim>\<open>params\<close> on one line, behind four spaces, becomes
  the nested form: \<^verbatim>\<open>protocol\<close>, \<^verbatim>\<open>id\<close> and \<^verbatim>\<open>call\<close> four spaces further in than the
  call, \<^verbatim>\<open>function\<close> and \<^verbatim>\<open>arguments\<close> eight spaces further in, every line behind the
  four spaces of the call.
\<close>

theorem example_call_site:
  "transform ''    $requestObject = RequestObjectData::from(['jsonrpc' => '2.0', 'id' => $id, 'method' => 'foo', 'params' => $args]);''
   = ''    $requestObject = RequestObjectData::from(['' @ nl @
     ''        'protocol' => VendProtocol::VERSION,'' @ nl @
     ''        'id' => $id,'' @ nl @
     ''        'call' => CallData::from(['' @ nl @
     ''            'function' => 'foo','' @ nl @
     ''            'arguments' => $args,'' @ nl @
     ''        ]),'' @ nl @
     ''    ]);''"
proof -
  have "transform ''    $requestObject = RequestObjectData::from(['jsonrpc' => '2.0', 'id' => $id, 'method' => 'foo', 'params' => $args]);''
        = transform_request [''    '', ''$id'', CHR 0x27 # ''foo'' @ [CHR 0x27], ''$args'']"
    using transform_match [OF search_at_start [OF example_match [of "[]"]]]
    by (simp add: transform_Nil)
  then show ?thesis
    by (simp add: transform_request_def group_def nl_def)
qed

text \<open>
  C10. A call site with nothing before \<^verbatim>\<open>$requestObject\<close> is not matched where it starts,
  and a text that starts with it and holds \<^verbatim>\<open>$requestObject\<close> nowhere else is returned as
  it is: the first group needs one white space character at least. Behind any white space,
  line ends among it, the same call site is matched, and the first group is all of that
  white space.
\<close>

theorem column_zero:
  assumes "well_formed c" and "ind \<noteq> []" and "list_all is_space ind"
  shows "re_match pattern (render_onto (c\<lparr>site_indent := []\<rparr>) rest) = None \<and>
     (\<not> sublist ''$requestObject'' (tl (render_onto (c\<lparr>site_indent := []\<rparr>) rest)) \<longrightarrow>
        transform (render_onto (c\<lparr>site_indent := []\<rparr>) rest)
        = render_onto (c\<lparr>site_indent := []\<rparr>) rest) \<and>
     re_match pattern (render_onto (c\<lparr>site_indent := ind\<rparr>) rest)
     = Some ([ind, site_id c, site_method c, site_params c], rest)"
proof -
  have "re_match pattern (render_onto (c\<lparr>site_indent := []\<rparr>) rest) = None"
    by (rule needs_space) (simp add: render_onto_def is_space_def)
  moreover have "\<not> sublist ''$requestObject'' (tl (render_onto (c\<lparr>site_indent := []\<rparr>) rest)) \<longrightarrow>
        transform (render_onto (c\<lparr>site_indent := []\<rparr>) rest)
        = render_onto (c\<lparr>site_indent := []\<rparr>) rest"
    using transform_no_match [OF no_match_without_head] by blast
  moreover have "re_match pattern (render_onto (c\<lparr>site_indent := ind\<rparr>) rest)
     = Some ([ind, site_id c, site_method c, site_params c], rest)"
    using pattern_complete [OF well_formed_indent [OF assms], of rest] by simp
  ultimately show ?thesis by simp
qed

theorem column_zero_witness:
  "re_match pattern ''$requestObject = RequestObjectData::from(['jsonrpc' => '2.0', 'id' => $id, 'method' => 'foo', 'params' => $args]);'' = None \<and>
   transform ''$requestObject = RequestObjectData::from(['jsonrpc' => '2.0', 'id' => $id, 'method' => 'foo', 'params' => $args]);''
   = ''$requestObject = RequestObjectData::from(['jsonrpc' => '2.0', 'id' => $id, 'method' => 'foo', 'params' => $args]);'' \<and>
   re_match pattern (nl @ ''  $requestObject = RequestObjectData::from(['jsonrpc' => '2.0', 'id' => $id, 'method' => 'foo', 'params' => $args]);'')
   = Some ([nl @ ''  '', ''$id'', CHR 0x27 # ''foo'' @ [CHR 0x27], ''$args''], [])"
proof -
  let ?c = "\<lparr>site_indent = ''    '',
      site_gaps = [[], '' '', '' '', [], '' '', '' '', '' '', '' '', '' '', '' '', '' '',
                   '' '', '' '', []],
      site_quotes = [CHR 0x27, CHR 0x27, CHR 0x27, CHR 0x27, CHR 0x27, CHR 0x27, CHR 0x27,
                     CHR 0x27, CHR 0x27, CHR 0x27],
      site_id = ''$id'', site_method = CHR 0x27 # ''foo'' @ [CHR 0x27],
      site_params = ''$args'', site_comma = False\<rparr>"
  have w: "well_formed ?c"
    by (simp add: well_formed_def shaped_def is_space_def is_quote_def)
  have i: "nl @ ''  '' \<noteq> []" "list_all is_space (nl @ ''  '')"
    by (simp_all add: nl_def is_space_def)
  have r: "render_onto (?c\<lparr>site_indent := []\<rparr>) []
     = ''$requestObject = RequestObjectData::from(['jsonrpc' => '2.0', 'id' => $id, 'method' => 'foo', 'params' => $args]);''"
    by (simp add: render_onto_def gap_def qt_def numeral_nat)
  have r': "render_onto (?c\<lparr>site_indent := nl @ ''  ''\<rparr>) []
     = nl @ ''  $requestObject = RequestObjectData::from(['jsonrpc' => '2.0', 'id' => $id, 'method' => 'foo', 'params' => $args]);''"
    by (simp add: render_onto_def gap_def qt_def numeral_nat)
  have n: "\<not> sublist ''$requestObject'' (tl ''$requestObject = RequestObjectData::from(['jsonrpc' => '2.0', 'id' => $id, 'method' => 'foo', 'params' => $args]);'')"
    by (simp add: sublist_Cons_right)
  from column_zero [OF w i, of "[]"] show ?thesis
    unfolding r r' using n by simp
qed



text \<open>
  C1. \<^verbatim>\<open>re.sub\<close> finds the occurrences by searching: the leftmost match, then the leftmost
  match in the text behind it. When the search finds a match and none behind it, the
  matched text is a call site, the groups are its indentation, id, method and params, and
  the result is the text before the match, the eight lines of the nested form, each behind
  the first group, and the text behind the match.
\<close>

theorem single_occurrence:
  assumes "re_search pattern s = Some (pre, gs, rest)" and "re_search pattern rest = None"
  shows "\<exists>c. shaped c \<and> s = pre @ render c @ rest \<and>
           gs = [site_indent c, site_id c, site_method c, site_params c] \<and>
           transform s = pre @
             site_indent c @ ''$requestObject = RequestObjectData::from(['' @ nl @
             site_indent c @ ''    'protocol' => VendProtocol::VERSION,'' @ nl @
             site_indent c @ ''    'id' => '' @ site_id c @ '','' @ nl @
             site_indent c @ ''    'call' => CallData::from(['' @ nl @
             site_indent c @ ''        'function' => '' @ site_method c @ '','' @ nl @
             site_indent c @ ''        'arguments' => '' @ site_params c @ '','' @ nl @
             site_indent c @ ''    ]),'' @ nl @
             site_indent c @ '']);'' @ rest"
proof -
  from search_shaped [OF assms(1)] obtain c where
    c: "shaped c" "s = pre @ render c @ rest"
    and g: "gs = [site_indent c, site_id c, site_method c, site_params c]"
    by (elim exE conjE)
  have "transform s = pre @ transform_request gs @ rest"
    using transform_match [OF assms(1)] transform_no_match [OF assms(2)] by simp
  then have "transform s = pre @
             site_indent c @ ''$requestObject = RequestObjectData::from(['' @ nl @
             site_indent c @ ''    'protocol' => VendProtocol::VERSION,'' @ nl @
             site_indent c @ ''    'id' => '' @ site_id c @ '','' @ nl @
             site_indent c @ ''    'call' => CallData::from(['' @ nl @
             site_indent c @ ''        'function' => '' @ site_method c @ '','' @ nl @
             site_indent c @ ''        'arguments' => '' @ site_params c @ '','' @ nl @
             site_indent c @ ''    ]),'' @ nl @
             site_indent c @ '']);'' @ rest"
    unfolding g transform_request_lines by simp
  with c g show ?thesis by blast
qed

theorem single_occurrence_witness:
  "transform (''<?php'' @ nl @ ''  $requestObject = RequestObjectData::from(['jsonrpc' => '2.0', 'id' => $id, 'method' => 'foo', 'params' => $args]);'' @ nl @ ''return;'')
   = ''<?php'' @
     nl @ ''  $requestObject = RequestObjectData::from(['' @ nl @
     nl @ ''      'protocol' => VendProtocol::VERSION,'' @ nl @
     nl @ ''      'id' => $id,'' @ nl @
     nl @ ''      'call' => CallData::from(['' @ nl @
     nl @ ''          'function' => 'foo','' @ nl @
     nl @ ''          'arguments' => $args,'' @ nl @
     nl @ ''      ]),'' @ nl @
     nl @ ''  ]);'' @ nl @ ''return;''"
proof -
  let ?c = "\<lparr>site_indent = nl @ ''  '',
      site_gaps = [[], '' '', '' '', [], '' '', '' '', '' '', '' '', '' '', '' '', '' '',
                   '' '', '' '', []],
      site_quotes = [CHR 0x27, CHR 0x27, CHR 0x27, CHR 0x27, CHR 0x27, CHR 0x27, CHR 0x27,
                     CHR 0x27, CHR 0x27, CHR 0x27],
      site_id = ''$id'', site_method = CHR 0x27 # ''foo'' @ [CHR 0x27],
      site_params = ''$args'', site_comma = False\<rparr>"
  let ?s = "''<?php'' @ nl @ ''  $requestObject = RequestObjectData::from(['jsonrpc' => '2.0', 'id' => $id, 'method' => 'foo', 'params' => $args]);'' @ nl @ ''return;''"
  have w: "well_formed ?c"
    by (simp add: well_formed_def shaped_def is_space_def is_quote_def nl_def)
  have p: "''<?php'' = [] \<or> \<not> is_space (last ''<?php'')"
    by (simp add: is_space_def)
  have n: "\<not> sublist ''$requestObject'' ''<?php''"
    by (simp add: sublist_Cons_right)
  have r: "''<?php'' @ render_onto ?c (nl @ ''return;'') = ?s"
    by (simp add: render_onto_def gap_def qt_def numeral_nat)
  have a: "re_search pattern ?s
     = Some (''<?php'', [nl @ ''  '', ''$id'', CHR 0x27 # ''foo'' @ [CHR 0x27], ''$args''],
             nl @ ''return;'')"
    using search_site [OF w p n, of "nl @ ''return;''"] unfolding r by simp
  have b: "re_search pattern (nl @ ''return;'') = None"
    by (rule no_match_without [OF jsonrpc_in_pattern]) (simp add: sublist_Cons_right nl_def)
  from single_occurrence [OF a b] obtain c :: call_site where
    g: "[nl @ ''  '', ''$id'', CHR 0x27 # ''foo'' @ [CHR 0x27], ''$args'']
        = [site_indent c, site_id c, site_method c, site_params c]"
    and t: "transform ?s = ''<?php'' @
             site_indent c @ ''$requestObject = RequestObjectData::from(['' @ nl @
             site_indent c @ ''    'protocol' => VendProtocol::VERSION,'' @ nl @
             site_indent c @ ''    'id' => '' @ site_id c @ '','' @ nl @
             site_indent c @ ''    'call' => CallData::from(['' @ nl @
             site_indent c @ ''        'function' => '' @ site_method c @ '','' @ nl @
             site_indent c @ ''        'arguments' => '' @ site_params c @ '','' @ nl @
             site_indent c @ ''    ]),'' @ nl @
             site_indent c @ '']);'' @ nl @ ''return;''"
    by (elim exE conjE)
  from g have "site_indent c = nl @ ''  ''" "site_id c = ''$id''"
    "site_method c = CHR 0x27 # ''foo'' @ [CHR 0x27]" "site_params c = ''$args''"
    by simp_all
  with t show ?thesis by simp
qed

text \<open>
  C2. When the search finds a match, and a second match in the text behind the first, the
  two matched texts are call sites that lie one behind the other in the text, and the
  result is the text before the first, the replacement made of the groups of the first,
  the text between the two, the replacement made of the groups of the second, and the
  transform of the text behind the second. The second match is searched in the text of the
  input behind the first match: the replacement of the first has no part in it.
\<close>

theorem multiple_occurrences:
  assumes "re_search pattern s = Some (pre1, gs1, rest1)"
    and "re_search pattern rest1 = Some (pre2, gs2, rest2)"
  shows "\<exists>c1 c2. shaped c1 \<and> shaped c2 \<and>
           s = pre1 @ render c1 @ pre2 @ render c2 @ rest2 \<and>
           gs1 = [site_indent c1, site_id c1, site_method c1, site_params c1] \<and>
           gs2 = [site_indent c2, site_id c2, site_method c2, site_params c2] \<and>
           transform s = pre1 @ transform_request gs1 @ transform rest1 \<and>
           transform rest1 = pre2 @ transform_request gs2 @ transform rest2 \<and>
           transform s = pre1 @ transform_request gs1 @ pre2 @ transform_request gs2
                         @ transform rest2"
proof -
  from search_shaped [OF assms(1)] obtain c1 where
    c1: "shaped c1" "s = pre1 @ render c1 @ rest1"
    "gs1 = [site_indent c1, site_id c1, site_method c1, site_params c1]"
    by (elim exE conjE)
  from search_shaped [OF assms(2)] obtain c2 where
    c2: "shaped c2" "rest1 = pre2 @ render c2 @ rest2"
    "gs2 = [site_indent c2, site_id c2, site_method c2, site_params c2]"
    by (elim exE conjE)
  have s: "s = pre1 @ render c1 @ pre2 @ render c2 @ rest2"
    using c1(2) c2(2) by simp
  have t1: "transform s = pre1 @ transform_request gs1 @ transform rest1"
    by (rule transform_match [OF assms(1)])
  have t2: "transform rest1 = pre2 @ transform_request gs2 @ transform rest2"
    by (rule transform_match [OF assms(2)])
  have t: "transform s = pre1 @ transform_request gs1 @ pre2 @ transform_request gs2
                         @ transform rest2"
    unfolding t1 t2 ..
  from c1(1) c2(1) s c1(3) c2(3) t1 t2 t show ?thesis by blast
qed

theorem multiple_occurrences_witness:
  "transform ('' $requestObject = RequestObjectData::from(['jsonrpc' => '2.0', 'id' => 1, 'method' => $m, 'params' => $x]);'' @ nl @
              '' $requestObject = RequestObjectData::from(['jsonrpc' => '2.0', 'id' => 2, 'method' => $n, 'params' => $y]);'')
   = transform_request ['' '', ''1'', ''$m'', ''$x''] @
     transform_request [nl @ '' '', ''2'', ''$n'', ''$y'']"
proof -
  let ?c1 = "\<lparr>site_indent = '' '',
      site_gaps = [[], '' '', '' '', [], '' '', '' '', '' '', '' '', '' '', '' '', '' '',
                   '' '', '' '', []],
      site_quotes = [CHR 0x27, CHR 0x27, CHR 0x27, CHR 0x27, CHR 0x27, CHR 0x27, CHR 0x27,
                     CHR 0x27, CHR 0x27, CHR 0x27],
      site_id = ''1'', site_method = ''$m'', site_params = ''$x'', site_comma = False\<rparr>"
  let ?c2 = "\<lparr>site_indent = nl @ '' '',
      site_gaps = [[], '' '', '' '', [], '' '', '' '', '' '', '' '', '' '', '' '', '' '',
                   '' '', '' '', []],
      site_quotes = [CHR 0x27, CHR 0x27, CHR 0x27, CHR 0x27, CHR 0x27, CHR 0x27, CHR 0x27,
                     CHR 0x27, CHR 0x27, CHR 0x27],
      site_id = ''2'', site_method = ''$n'', site_params = ''$y'', site_comma = False\<rparr>"
  let ?r1 = "nl @ '' $requestObject = RequestObjectData::from(['jsonrpc' => '2.0', 'id' => 2, 'method' => $n, 'params' => $y]);''"
  let ?s = "'' $requestObject = RequestObjectData::from(['jsonrpc' => '2.0', 'id' => 1, 'method' => $m, 'params' => $x]);'' @ ?r1"
  have w1: "well_formed ?c1"
    by (simp add: well_formed_def shaped_def is_space_def is_quote_def)
  have w2: "well_formed ?c2"
    by (simp add: well_formed_def shaped_def is_space_def is_quote_def nl_def)
  have e2: "render_onto ?c2 [] = ?r1"
    by (simp add: render_onto_def gap_def qt_def numeral_nat)
  have e1: "render_onto ?c1 ?r1 = ?s"
    by (simp add: render_onto_def gap_def qt_def numeral_nat)
  have a: "re_search pattern ?s = Some ([], ['' '', ''1'', ''$m'', ''$x''], ?r1)"
    using search_at_start [OF pattern_complete [OF w1, of ?r1]] unfolding e1 by simp
  have b: "re_search pattern ?r1 = Some ([], [nl @ '' '', ''2'', ''$n'', ''$y''], [])"
    using search_at_start [OF pattern_complete [OF w2, of "[]"]] unfolding e2 by simp
  from multiple_occurrences [OF a b] obtain c1 c2 :: call_site where
    "transform ?s = [] @ transform_request ['' '', ''1'', ''$m'', ''$x''] @ [] @
       transform_request [nl @ '' '', ''2'', ''$n'', ''$y''] @ transform []"
    by (elim exE conjE)
  then show ?thesis
    by (simp add: transform_Nil)
qed

text \<open>
  C4, as the code has it. A text that lacks one of the key words \<^verbatim>\<open>jsonrpc\<close>, \<^verbatim>\<open>id\<close>,
  \<^verbatim>\<open>method\<close>, \<^verbatim>\<open>params\<close> or the closing \<^verbatim>\<open>]);\<close>, and more generally a text no part of which
  has the shape of a call site (the four keys in their order, each in quotes, an id and a
  method without comma, \<^verbatim>\<open>]);\<close> at the end), has no match and is returned as it is.
\<close>

theorem malformed_untouched:
  assumes "(\<exists>l\<in>set [''jsonrpc'', ''id'', ''method'', ''params'', '']);'']. \<not> sublist l s) \<or>
           (\<forall>pre c rest. shaped c \<longrightarrow> s \<noteq> pre @ render c @ rest)"
  shows "re_search pattern s = None \<and> transform s = s"
proof -
  have "re_search pattern s = None"
  proof (cases "re_search pattern s")
    case None
    then show ?thesis .
  next
    case (Some r)
    obtain pre gs rest where r: "r = (pre, gs, rest)" by (cases r)
    from search_shaped [OF Some [unfolded r]] obtain c where
      c: "shaped c" "s = pre @ render c @ rest"
      by (elim exE conjE)
    from assms show ?thesis
    proof
      assume "\<exists>l\<in>set [''jsonrpc'', ''id'', ''method'', ''params'', '']);'']. \<not> sublist l s"
      then obtain l where l: "l \<in> set [''jsonrpc'', ''id'', ''method'', ''params'', '']);'']"
        and n: "\<not> sublist l s" by (elim bexE)
      from no_match_without [OF keys_in_pattern [OF l] n] show ?thesis .
    next
      assume "\<forall>pre c rest. shaped c \<longrightarrow> s \<noteq> pre @ render c @ rest"
      with c show ?thesis by blast
    qed
  qed
  with transform_no_match [OF this] show ?thesis by simp
qed

theorem malformed_untouched_witness:
  "transform ''    $requestObject = RequestObjectData::from(['jsonrpc' => '2.0', 'id' => $id, 'method' => $m, 'params' => $args''
   = ''    $requestObject = RequestObjectData::from(['jsonrpc' => '2.0', 'id' => $id, 'method' => $m, 'params' => $args''"
proof -
  have "\<exists>l\<in>set [''jsonrpc'', ''id'', ''method'', ''params'', '']);''].
     \<not> sublist l ''    $requestObject = RequestObjectData::from(['jsonrpc' => '2.0', 'id' => $id, 'method' => $m, 'params' => $args''"
    by (simp add: sublist_Cons_right)
  then have "(\<exists>l\<in>set [''jsonrpc'', ''id'', ''method'', ''params'', '']);''].
     \<not> sublist l ''    $requestObject = RequestObjectData::from(['jsonrpc' => '2.0', 'id' => $id, 'method' => $m, 'params' => $args'') \<or>
     (\<forall>pre c rest. shaped c \<longrightarrow> ''    $requestObject = RequestObjectData::from(['jsonrpc' => '2.0', 'id' => $id, 'method' => $m, 'params' => $args'' \<noteq> pre @ render c @ rest)"
    by (rule disjI1)
  from malformed_untouched [OF this] show ?thesis by (rule conjunct2)
qed

text \<open>
  The claim as the spec states it fails on a call without its \<^verbatim>\<open>]);\<close> when \<^verbatim>\<open>]);\<close> comes
  later in the text: the fourth group runs on to the end of the next statement, and the
  two statements are rewritten into one call.
\<close>

theorem malformed_untouched_counterexample:
  "\<not> sublist '']);'' ''    $requestObject = RequestObjectData::from(['jsonrpc' => '2.0', 'id' => $id, 'method' => $m, 'params' => $args'' \<and>
   re_match pattern
     (''    $requestObject = RequestObjectData::from(['jsonrpc' => '2.0', 'id' => $id, 'method' => $m, 'params' => $args'' @ nl @ ''    $other = foo([3]);'')
   = Some ([''    '', ''$id'', ''$m'', ''$args'' @ nl @ ''    $other = foo([3''], []) \<and>
   transform
     (''    $requestObject = RequestObjectData::from(['jsonrpc' => '2.0', 'id' => $id, 'method' => $m, 'params' => $args'' @ nl @ ''    $other = foo([3]);'')
   = ''    $requestObject = RequestObjectData::from(['' @ nl @
     ''        'protocol' => VendProtocol::VERSION,'' @ nl @
     ''        'id' => $id,'' @ nl @
     ''        'call' => CallData::from(['' @ nl @
     ''            'function' => $m,'' @ nl @
     ''            'arguments' => $args'' @ nl @ ''    $other = foo([3,'' @ nl @
     ''        ]),'' @ nl @
     ''    ]);''"
proof -
  have a: "\<not> sublist '']);'' ''    $requestObject = RequestObjectData::from(['jsonrpc' => '2.0', 'id' => $id, 'method' => $m, 'params' => $args''"
    by (simp add: sublist_Cons_right)
  have b: "re_match pattern
     (''    $requestObject = RequestObjectData::from(['jsonrpc' => '2.0', 'id' => $id, 'method' => $m, 'params' => $args'' @ nl @ ''    $other = foo([3]);'')
   = Some ([''    '', ''$id'', ''$m'', ''$args'' @ nl @ ''    $other = foo([3''], [])"
    using unclosed_match [of "[]"] by simp
  have "transform
     (''    $requestObject = RequestObjectData::from(['jsonrpc' => '2.0', 'id' => $id, 'method' => $m, 'params' => $args'' @ nl @ ''    $other = foo([3]);'')
   = transform_request [''    '', ''$id'', ''$m'', ''$args'' @ nl @ ''    $other = foo([3'']"
    using transform_match [OF search_at_start [OF b]] by (simp add: transform_Nil)
  then have c: "transform
     (''    $requestObject = RequestObjectData::from(['jsonrpc' => '2.0', 'id' => $id, 'method' => $m, 'params' => $args'' @ nl @ ''    $other = foo([3]);'')
   = ''    $requestObject = RequestObjectData::from(['' @ nl @
     ''        'protocol' => VendProtocol::VERSION,'' @ nl @
     ''        'id' => $id,'' @ nl @
     ''        'call' => CallData::from(['' @ nl @
     ''            'function' => $m,'' @ nl @
     ''            'arguments' => $args'' @ nl @ ''    $other = foo([3,'' @ nl @
     ''        ]),'' @ nl @
     ''    ]);''"
    by (simp add: transform_request_lines)
  from a b c show ?thesis by (intro conjI)
qed

end
